theory Spec2Isabelle
  imports Main
begin

section \<open>JavaScript strings\<close>

text \<open>
  A JavaScript string is a sequence of UTF-16 code units. The model uses \<^typ>\<open>string\<close>:
  one \<^typ>\<open>char\<close> per code unit, for texts whose code units are below 256. Offsets and
  lengths are counted in code units, as \<open>String.prototype.length\<close> does.
\<close>

definition nl :: char where
  "nl = CHR 0x0A"

text \<open>
  The characters matched by \<open>\s\<close> and stripped by \<open>trim()\<close>: tab, line feed, vertical tab,
  form feed, carriage return, space and no-break space (the members of the class below 256).
\<close>

definition js_space :: "char list" where
  "js_space = [CHR 0x09, CHR 0x0A, CHR 0x0B, CHR 0x0C, CHR 0x0D, CHR 0x20, CHR 0xA0]"

text \<open>The line terminators seen by \<open>$\<close> under the \<open>m\<close> flag.\<close>

definition line_terminators :: "char list" where
  "line_terminators = [CHR 0x0A, CHR 0x0D]"

definition is_space :: "char \<Rightarrow> bool" where
  "is_space c = (c \<in> set js_space)"

text \<open>\<open>s.trim()\<close>\<close>

definition trim :: "string \<Rightarrow> string" where
  "trim s = rev (dropWhile is_space (rev (dropWhile is_space s)))"

text \<open>\<open>s.split('\n')\<close>: never empty, \<open>''.split('\n')\<close> is \<open>['']\<close>.\<close>

fun split_lines :: "string \<Rightarrow> string list" where
  "split_lines [] = [[]]"
| "split_lines (c # s) =
     (if c = nl then [] # split_lines s
      else (case split_lines s of [] \<Rightarrow> [[c]] | l # ls \<Rightarrow> (c # l) # ls))"

text \<open>\<open>ls.join('\n')\<close>\<close>

fun join_lines :: "string list \<Rightarrow> string" where
  "join_lines [] = []"
| "join_lines [l] = l"
| "join_lines (l # ls) = l @ nl # join_lines ls"

text \<open>\<open>s.startsWith(w)\<close> and \<open>s.includes(w)\<close>\<close>

definition startsWith :: "string \<Rightarrow> string \<Rightarrow> bool" where
  "startsWith s w = (take (length w) s = w)"

fun includes_sub :: "string \<Rightarrow> string \<Rightarrow> bool" where
  "includes_sub [] w = (w = [])"
| "includes_sub (c # s) w = (startsWith (c # s) w \<or> includes_sub s w)"

text \<open>\<open>s.endsWith(w)\<close>\<close>

definition endsWith :: "string \<Rightarrow> string \<Rightarrow> bool" where
  "endsWith s w = (length w \<le> length s \<and> drop (length s - length w) s = w)"

text \<open>
  \<open>s.substring(a, b)\<close>: both arguments are clamped to the length and swapped when \<open>a > b\<close>;
  \<open>s.substring(a)\<close> is \<open>drop a s\<close> and \<open>s.substring(0, b)\<close> is \<open>take b s\<close>. A negative
  argument counts as 0, which is what truncating subtraction on \<^typ>\<open>nat\<close> yields.
\<close>

definition substring :: "string \<Rightarrow> nat \<Rightarrow> nat \<Rightarrow> string" where
  "substring s a b =
     (let a' = min a (length s); b' = min b (length s)
      in take (max a' b' - min a' b') (drop (min a' b') s))"

section \<open>Regular expressions as the engine runs them\<close>

text \<open>
  The fragment of the pattern language the source uses: literals, character classes and
  their complements, sequence, alternation, the greedy quantifiers \<open>?\<close> and \<open>*\<close>, and the
  assertions \<open>^\<close> (without the \<open>m\<close> flag), \<open>$\<close> (without it) and \<open>$\<close> (with it).
  \<open>r+\<close> is \<open>r r*\<close> and \<open>r{n,}\<close> is \<open>n\<close> copies of \<open>r\<close> followed by \<open>r*\<close>; no pattern of the
  source reads a capture group back.
\<close>

datatype regex =
    Lit string
  | OneOf "char list"
  | NoneOf "char list"
  | Seq regex regex
  | Alt regex regex
  | Opt regex
  | Star regex
  | Bol
  | Eol
  | EolM

text \<open>
  A position is the code unit before it (\<open>None\<close> at index 0) and the rest of the input.
\<close>

type_synonym pos = "char option \<times> string"

text \<open>
  \<open>ends r x\<close> lists the positions where a match of \<open>r\<close> started at \<open>x\<close> can end, in the order
  in which the backtracking matcher tries them: the first alternative before the second,
  one more iteration before none. An iteration of \<open>*\<close> that consumes nothing is rejected.
\<close>

function (sequential) ends :: "regex \<Rightarrow> pos \<Rightarrow> pos list" where
  "ends (Lit w) (p, s) =
     (if take (length w) s = w
      then [(if w = [] then p else Some (last w), drop (length w) s)] else [])"
| "ends (OneOf cs) (p, []) = []"
| "ends (OneOf cs) (p, c # s) = (if c \<in> set cs then [(Some c, s)] else [])"
| "ends (NoneOf cs) (p, []) = []"
| "ends (NoneOf cs) (p, c # s) = (if c \<in> set cs then [] else [(Some c, s)])"
| "ends (Seq a b) x = concat (map (ends b) (ends a x))"
| "ends (Alt a b) x = ends a x @ ends b x"
| "ends (Opt a) x = ends a x @ [x]"
| "ends (Star a) x =
     concat (map (\<lambda>y. if length (snd y) < length (snd x) then ends (Star a) y else [])
                 (ends a x)) @ [x]"
| "ends Bol (p, s) = (if p = None then [(p, s)] else [])"
| "ends Eol (p, s) = (if s = [] then [(p, s)] else [])"
| "ends EolM (p, s) =
     (case s of [] \<Rightarrow> [(p, s)]
      | c # _ \<Rightarrow> if c \<in> set line_terminators then [(p, s)] else [])"
  by pat_completeness auto
termination
  by (relation "measures [\<lambda>(r, x). size r, \<lambda>(r, x). length (snd x)]") auto

definition Plus :: "regex \<Rightarrow> regex" where
  "Plus r = Seq r (Star r)"

text \<open>\<open>r{n,}\<close>\<close>

fun AtLeast :: "nat \<Rightarrow> regex \<Rightarrow> regex" where
  "AtLeast 0 r = Star r"
| "AtLeast (Suc n) r = Seq r (AtLeast n r)"

text \<open>\<open>(r1|r2|...|rn)\<close>\<close>

fun Alts :: "regex list \<Rightarrow> regex" where
  "Alts [] = OneOf []"
| "Alts [r] = r"
| "Alts (r # rs) = Alt r (Alts rs)"

text \<open>
  The leftmost match at or after the current index: \<open>search r i x\<close> is the start index and
  the length of the first match, where \<open>i\<close> is the index of \<open>x\<close>.
\<close>

fun search :: "regex \<Rightarrow> nat \<Rightarrow> pos \<Rightarrow> (nat \<times> nat) option" where
  "search r i (p, s) =
     (case ends r (p, s) of
        y # _ \<Rightarrow> Some (i, length s - length (snd y))
      | [] \<Rightarrow> (case s of [] \<Rightarrow> None | c # s' \<Rightarrow> search r (Suc i) (Some c, s')))"

text \<open>\<open>s.match(r)\<close> and \<open>s.replace(r, rep)\<close> for a pattern without the \<open>g\<close> flag.\<close>

definition js_match :: "regex \<Rightarrow> string \<Rightarrow> (nat \<times> nat) option" where
  "js_match r s = search r 0 (None, s)"

definition replace_first :: "regex \<Rightarrow> string \<Rightarrow> string \<Rightarrow> string" where
  "replace_first r rep s =
     (case search r 0 (None, s) of
        None \<Rightarrow> s
      | Some (i, n) \<Rightarrow> take i s @ rep @ drop (i + n) s)"

text \<open>
  \<open>s.replace(r, rep)\<close> for a pattern with the \<open>g\<close> flag: every match, left to right, each
  search starting where the previous match ended; after an empty match the next code unit
  is copied and the search starts behind it.
\<close>

fun replace_all :: "regex \<Rightarrow> string \<Rightarrow> pos \<Rightarrow> string" where
  "replace_all r rep (p, s) =
     (case ends r (p, s) of
        [] \<Rightarrow> (case s of [] \<Rightarrow> [] | c # s' \<Rightarrow> c # replace_all r rep (Some c, s'))
      | y # _ \<Rightarrow>
          if length (snd y) < length s then rep @ replace_all r rep y
          else rep @ (case s of [] \<Rightarrow> [] | c # s' \<Rightarrow> c # replace_all r rep (Some c, s')))"

definition replace_global :: "regex \<Rightarrow> string \<Rightarrow> string \<Rightarrow> string" where
  "replace_global r rep s = replace_all r rep (None, s)"

text \<open>
  The loop \<open>while ((match = regex.exec(code)) !== null) { ... }\<close> over a pattern with the
  \<open>g\<close> flag: the list of (start, end) of the matches. \<open>exec\<close> moves \<open>lastIndex\<close> to the end
  of the match; an empty match leaves it where it is, the same match is found again and
  the loop never ends: that is the result \<open>None\<close>.
\<close>

fun exec_loop :: "regex \<Rightarrow> nat \<Rightarrow> pos \<Rightarrow> (nat \<times> nat) list option" where
  "exec_loop r i (p, s) =
     (case ends r (p, s) of
        [] \<Rightarrow> (case s of [] \<Rightarrow> Some [] | c # s' \<Rightarrow> exec_loop r (Suc i) (Some c, s'))
      | y # _ \<Rightarrow>
          if length (snd y) < length s
          then map_option ((#) (i, i + (length s - length (snd y))))
                 (exec_loop r (i + (length s - length (snd y))) y)
          else None)"

section \<open>The parser (parser.js)\<close>

record statement =
  s_type :: string
  s_line :: nat
  s_column :: nat
  s_start :: nat
  s_end :: nat
  s_text :: string
  s_lineContent :: string

subsection \<open>What the structural parser hands to the visitor\<close>

text \<open>
  \<open>@babel/parser\<close> and \<open>@babel/traverse\<close> are libraries outside the repository. Of a syntax
  tree the visitor of \<open>parseCode\<close> sees the call expressions and the debugger statements,
  in traversal order, each with its callee and its \<open>start\<close> and \<open>end\<close>. The library is a
  parameter: given the code and the plugin list it throws an error with a message or
  yields the visited nodes.
\<close>

datatype callee =
    Identifier string
  | MemberExpression callee callee
  | OtherExpression

datatype visited =
    CallExpression callee nat nat
  | DebuggerStatement nat nat

type_synonym babel = "string \<Rightarrow> string list \<Rightarrow> string + visited list"

definition isIdentifierNamed :: "callee \<Rightarrow> string \<Rightarrow> bool" where
  "isIdentifierNamed e n = (case e of Identifier m \<Rightarrow> m = n | _ \<Rightarrow> False)"

definition console_methods :: "string list" where
  "console_methods =
     [''log'', ''debug'', ''info'', ''warn'', ''error'', ''trace'', ''table'', ''time'', ''timeEnd'']"

definition isConsoleCall :: "callee \<Rightarrow> bool" where
  "isConsoleCall c =
     (case c of
        MemberExpression obj prop \<Rightarrow>
          isIdentifierNamed obj ''console'' \<and>
          (case prop of Identifier m \<Rightarrow> m \<in> set console_methods | _ \<Rightarrow> False)
      | _ \<Rightarrow> False)"

definition isPrintCall :: "callee \<Rightarrow> bool" where
  "isPrintCall c = isIdentifierNamed c ''print''"

definition isSystemOutCall :: "callee \<Rightarrow> bool" where
  "isSystemOutCall c =
     (case c of
        MemberExpression (MemberExpression o1 p1) p2 \<Rightarrow>
          isIdentifierNamed o1 ''System'' \<and> isIdentifierNamed p1 ''out'' \<and>
          isIdentifierNamed p2 ''println''
      | _ \<Rightarrow> False)"

subsection \<open>addDebugStatement\<close>

text \<open>\<open>/^[\s]*;/\<close>\<close>

definition semicolon_regex :: regex where
  "semicolon_regex = Seq Bol (Seq (Star (OneOf js_space)) (Lit '';''))"

text \<open>
  The loop that finds the line of \<open>start\<close>: the result is \<open>(lineNumber, lineStart)\<close>. When
  no line holds \<open>start\<close> the loop ends without \<open>break\<close>: \<open>lineNumber\<close> keeps its initial 1 and
  \<open>lineStart\<close> is behind the last line.
\<close>

fun add_line_of :: "string list \<Rightarrow> nat \<Rightarrow> nat \<Rightarrow> nat \<Rightarrow> nat \<times> nat" where
  "add_line_of [] start i lineStart = (1, lineStart)"
| "add_line_of (l # ls) start i lineStart =
     (let lineEnd = lineStart + length l
      in if start \<ge> lineStart \<and> start \<le> lineEnd then (i + 1, lineStart)
         else add_line_of ls start (i + 1) (lineEnd + 1))"

text \<open>
  \<open>lines[lineNumber - 1].trim()\<close> throws a TypeError when the line is undefined; the
  result is then \<open>Inl\<close> of the message. The line is defined for every input (lemma
  \<open>addDebugStatement_returns\<close>).
\<close>

definition addDebugStatement :: "nat \<Rightarrow> nat \<Rightarrow> string \<Rightarrow> string \<Rightarrow> string + statement" where
  "addDebugStatement node_start node_end code type =
     (let start = node_start;
          afterStatement = drop node_end code;
          end = (case js_match semicolon_regex afterStatement of
                   Some (i, n) \<Rightarrow> node_end + n
                 | None \<Rightarrow> node_end);
          lines = split_lines code;
          (lineNumber, lineStart) = add_line_of lines start 0 0
      in if lineNumber - 1 < length lines
         then Inr \<lparr> s_type = type, s_line = lineNumber, s_column = start - lineStart,
                    s_start = start, s_end = end, s_text = substring code start end,
                    s_lineContent = trim (lines ! (lineNumber - 1)) \<rparr>
         else Inl ''Cannot read properties of undefined (reading 'trim')'')"

definition handleCallExpression :: "callee \<Rightarrow> nat \<Rightarrow> nat \<Rightarrow> string \<Rightarrow> (string + statement) option" where
  "handleCallExpression c node_start node_end code =
     (if isConsoleCall c then Some (addDebugStatement node_start node_end code ''console'')
      else if isPrintCall c then Some (addDebugStatement node_start node_end code ''print'')
      else if isSystemOutCall c then Some (addDebugStatement node_start node_end code ''system.out'')
      else None)"

definition handleDebuggerStatement :: "nat \<Rightarrow> nat \<Rightarrow> string \<Rightarrow> (string + statement) option" where
  "handleDebuggerStatement node_start node_end code =
     Some (addDebugStatement node_start node_end code ''debugger'')"

text \<open>
  The traversal calls the visitor on each node in turn; every statement is pushed on
  \<open>this.debugStatements\<close>, and an exception ends the traversal.
\<close>

fun traverse :: "visited list \<Rightarrow> string \<Rightarrow> statement list \<Rightarrow> string + statement list" where
  "traverse [] code acc = Inr acc"
| "traverse (v # vs) code acc =
     (case (case v of
              CallExpression c a b \<Rightarrow> handleCallExpression c a b code
            | DebuggerStatement a b \<Rightarrow> handleDebuggerStatement a b code) of
        None \<Rightarrow> traverse vs code acc
      | Some (Inl e) \<Rightarrow> Inl e
      | Some (Inr st) \<Rightarrow> traverse vs code (acc @ [st]))"

subsection \<open>fallbackRegexParse\<close>

text \<open>
  The four patterns. They end alike, in \<open>\s*;?\s*\<close>, and the three call patterns have
  \<open>\s*\([^)]*\)\<close> before that.

  \<open>/console\.(log|debug|info|warn|error|trace|table|time|timeEnd)\s*\([^)]*\)\s*;?\s*/g\<close>
\<close>

definition pattern_tail :: regex where
  "pattern_tail =
     Seq (Star (OneOf js_space)) (Seq (Opt (Lit '';'')) (Star (OneOf js_space)))"

definition call_tail :: regex where
  "call_tail =
     Seq (Star (OneOf js_space))
      (Seq (Lit ''('') (Seq (Star (NoneOf '')'')) (Seq (Lit '')'') pattern_tail)))"

definition console_regex :: regex where
  "console_regex =
     Seq (Lit ''console.'') (Seq (Alts (map Lit console_methods)) call_tail)"

text \<open>\<open>/print\s*\([^)]*\)\s*;?\s*/g\<close>\<close>

definition print_regex :: regex where
  "print_regex = Seq (Lit ''print'') call_tail"

text \<open>\<open>/System\.out\.println\s*\([^)]*\)\s*;?\s*/g\<close>\<close>

definition system_out_regex :: regex where
  "system_out_regex = Seq (Lit ''System.out.println'') call_tail"

text \<open>\<open>/debugger\s*;?\s*/g\<close>\<close>

definition debugger_regex :: regex where
  "debugger_regex = Seq (Lit ''debugger'') pattern_tail"

definition patterns :: "(regex \<times> string) list" where
  "patterns =
     [(console_regex, ''console''), (print_regex, ''print''),
      (system_out_regex, ''system.out''), (debugger_regex, ''debugger'')]"

fun fallback_line_of :: "string list \<Rightarrow> nat \<Rightarrow> nat \<Rightarrow> nat \<Rightarrow> nat \<times> nat" where
  "fallback_line_of [] start i lineStart = (1, lineStart)"
| "fallback_line_of (l # ls) start i lineStart =
     (if start \<ge> lineStart \<and> start \<le> lineStart + length l then (i + 1, lineStart)
      else fallback_line_of ls start (i + 1) (lineStart + length l + 1))"

text \<open>The statement pushed for one match; \<open>lines[lineNumber - 1]?.trim() || ''\<close>.\<close>

definition fallback_statement :: "string \<Rightarrow> string \<Rightarrow> nat \<times> nat \<Rightarrow> statement" where
  "fallback_statement code type m =
     (let start = fst m; end = snd m;
          lines = split_lines code;
          (lineNumber, lineStart) = fallback_line_of lines start 0 0
      in \<lparr> s_type = type, s_line = lineNumber, s_column = start - lineStart,
           s_start = start, s_end = end, s_text = substring code start end,
           s_lineContent =
             (if lineNumber - 1 < length lines then trim (lines ! (lineNumber - 1)) else []) \<rparr>)"

text \<open>
  \<open>patterns.forEach\<close>: the matches of each pattern in turn, appended to \<open>statements\<close>.
  \<open>None\<close> when one of the loops does not end.
\<close>

fun fallback_collect :: "(regex \<times> string) list \<Rightarrow> string \<Rightarrow> statement list option" where
  "fallback_collect [] code = Some []"
| "fallback_collect ((regex, type) # ps) code =
     (case exec_loop regex 0 (None, code) of
        None \<Rightarrow> None
      | Some ms \<Rightarrow> map_option ((@) (map (fallback_statement code type) ms))
                     (fallback_collect ps code))"

text \<open>\<open>statements.sort((a, b) => a.start - b.start)\<close>: a stable sort.\<close>

definition fallbackRegexParse :: "string \<Rightarrow> statement list option" where
  "fallbackRegexParse code = map_option (sort_key s_start) (fallback_collect patterns code)"

subsection \<open>parseCode\<close>

definition plugins :: "string \<Rightarrow> string list" where
  "plugins filePath =
     (let isTypeScript = endsWith filePath ''.ts'' \<or> endsWith filePath ''.tsx'';
          isJSX = endsWith filePath ''.jsx'' \<or> endsWith filePath ''.tsx''
      in [''asyncGenerators'', ''bigInt'', ''classProperties'', ''decorators-legacy'',
          ''doExpressions'', ''dynamicImport'', ''exportDefaultFrom'', ''exportNamespaceFrom'',
          ''functionBind'', ''functionSent'', ''importMeta'', ''nullishCoalescingOperator'',
          ''numericSeparator'', ''objectRestSpread'', ''optionalCatchBinding'',
          ''optionalChaining'', ''throwExpressions'', ''topLevelAwait'',
          ''trailingFunctionCommas'']
         @ (if isTypeScript then [''typescript''] else [])
         @ (if isJSX then [''jsx''] else []))"

text \<open>
  How a call of \<open>parseCode\<close> ends: it returns a statement list, an exception leaves it, or
  it does not return.
\<close>

datatype outcome =
    Returns "statement list"
  | Throws string
  | NoReturn

text \<open>
  The result of \<open>parseCode\<close> is the lines written by \<open>console.warn\<close> and the outcome. The
  \<open>try\<close> block is the parse and the traversal; the \<open>catch\<close> clause warns and returns what
  \<open>fallbackRegexParse\<close> returns.
\<close>

definition parseCode :: "babel \<Rightarrow> string \<Rightarrow> string \<Rightarrow> string list \<times> outcome" where
  "parseCode parse code filePath =
     (case (case parse code (plugins filePath) of
              Inl message \<Rightarrow> Inl message
            | Inr nodes \<Rightarrow> traverse nodes code []) of
        Inl message \<Rightarrow>
          ([''Failed to parse file '' @ filePath @ '': '' @ message],
           (case fallbackRegexParse code of None \<Rightarrow> NoReturn | Some sts \<Rightarrow> Returns sts))
      | Inr sts \<Rightarrow> ([], Returns sts))"

section \<open>The cleaner (cleaner.js)\<close>

text \<open>
  The fields of \<open>this.config\<close> that the cleaner reads. The constructor fills a missing
  field with its default (\<open>config.removeConsoleLog ?? true\<close> and so on).
\<close>

record removal_config =
  removeConsoleLog :: bool
  removeConsoleWarn :: bool
  removeConsoleError :: bool
  removeConsoleInfo :: bool
  removeConsoleDebug :: bool
  removeConsoleTrace :: bool
  removeDebugger :: bool
  removePrint :: bool
  removeSystemOut :: bool
  maxEmptyLines :: nat
  cleanWhitespace :: bool

definition default_config :: removal_config where
  "default_config =
     \<lparr> removeConsoleLog = True, removeConsoleWarn = True, removeConsoleError = False,
       removeConsoleInfo = True, removeConsoleDebug = True, removeConsoleTrace = True,
       removeDebugger = True, removePrint = True, removeSystemOut = True,
       maxEmptyLines = 2, cleanWhitespace = True \<rparr>"

text \<open>\<open>{ ...statement, originalPosition: statement.start }\<close>\<close>

record removed_statement = statement +
  originalPosition :: nat

record clean_result =
  cleanCode :: string
  removedCount :: nat
  removedStatements :: "removed_statement list"

text \<open>The state of a \<open>CodeCleaner\<close> object.\<close>

record cleaner =
  config :: removal_config
  this_removedStatements :: "removed_statement list"

subsection \<open>filterStatementsByConfig\<close>

text \<open>The callback of \<open>statements.filter\<close>: the \<open>switch\<close> on \<open>statement.type\<close>.\<close>

definition filter_callback :: "removal_config \<Rightarrow> statement \<Rightarrow> bool" where
  "filter_callback c statement =
     (if s_type statement = ''console'' then
        (if includes_sub (s_text statement) ''console.log'' \<and> \<not> removeConsoleLog c then False
         else if includes_sub (s_text statement) ''console.warn'' \<and> \<not> removeConsoleWarn c then False
         else if includes_sub (s_text statement) ''console.error'' \<and> \<not> removeConsoleError c then False
         else if includes_sub (s_text statement) ''console.info'' \<and> \<not> removeConsoleInfo c then False
         else if includes_sub (s_text statement) ''console.debug'' \<and> \<not> removeConsoleDebug c then False
         else if includes_sub (s_text statement) ''console.trace'' \<and> \<not> removeConsoleTrace c then False
         else True)
      else if s_type statement = ''debugger'' then removeDebugger c
      else if s_type statement = ''print'' then removePrint c
      else if s_type statement = ''system.out'' then removeSystemOut c
      else True)"

definition filterStatementsByConfig :: "removal_config \<Rightarrow> statement list \<Rightarrow> statement list" where
  "filterStatementsByConfig c statements = filter (filter_callback c) statements"

subsection \<open>analyzeStatementContext\<close>

record statement_context =
  ctx_lineNumber :: nat
  ctx_lineStart :: nat
  ctx_line :: string
  ctx_beforeInLine :: string
  ctx_afterInLine :: string
  isOnOwnLine :: bool
  isAtLineStart :: bool
  isAtLineEnd :: bool
  hasContentBefore :: bool
  hasContentAfter :: bool

text \<open>
  The loop that finds the line of the statement: the result is \<open>(lineNumber, lineStart)\<close>,
  both 0 when no line holds \<open>statement.start\<close>.
\<close>

fun context_line_of :: "string list \<Rightarrow> nat \<Rightarrow> nat \<Rightarrow> nat \<Rightarrow> nat \<times> nat" where
  "context_line_of [] start i currentPos = (0, 0)"
| "context_line_of (l # ls) start i currentPos =
     (if start \<ge> currentPos \<and> start < currentPos + length l + 1 then (i, currentPos)
      else context_line_of ls start (i + 1) (currentPos + length l + 1))"

text \<open>
  \<open>lines[lineNumber]\<close> is always defined: \<open>lines\<close> is not empty and \<open>lineNumber\<close> is 0 or
  the index of a line (lemma \<open>context_line_of_in_range\<close>).
\<close>

definition analyzeStatementContext :: "string \<Rightarrow> statement \<Rightarrow> statement_context" where
  "analyzeStatementContext code statement =
     (let lines = split_lines code;
          (lineNumber, lineStart) = context_line_of lines (s_start statement) 0 0;
          line = lines ! lineNumber;
          statementStartInLine = s_start statement - lineStart;
          statementEndInLine = s_end statement - lineStart;
          beforeInLine = take statementStartInLine line;
          afterInLine = drop statementEndInLine line
      in \<lparr> ctx_lineNumber = lineNumber, ctx_lineStart = lineStart, ctx_line = line,
           ctx_beforeInLine = beforeInLine, ctx_afterInLine = afterInLine,
           isOnOwnLine = (trim beforeInLine = [] \<and> trim afterInLine = []),
           isAtLineStart = (trim beforeInLine = []),
           isAtLineEnd = (trim afterInLine = []),
           hasContentBefore = (trim beforeInLine \<noteq> []),
           hasContentAfter = (trim afterInLine \<noteq> []) \<rparr>)"

subsection \<open>removeStatement\<close>

definition removeEntireLine :: "string \<Rightarrow> string \<Rightarrow> statement_context \<Rightarrow> string \<times> string" where
  "removeEntireLine before after context =
     (let beforeLines = split_lines before;
          adjustedAfter =
            (if startsWith after [nl] then drop 1 after
             else if startsWith after [CHR 0x0D, nl] then drop 2 after
             else after);
          adjustedBefore =
            (if length beforeLines > 0 \<and> trim (last beforeLines) = []
             then (let popped = butlast beforeLines
                   in join_lines popped @ (if length popped > 0 then [nl] else []))
             else before)
      in (adjustedBefore, adjustedAfter))"

text \<open>\<open>/[,;]\s*$/\<close>\<close>

definition leading_regex :: regex where
  "leading_regex = Seq (OneOf '',;'') (Seq (Star (OneOf js_space)) Eol)"

definition cleanLeadingCommaOrSemicolon :: "string \<Rightarrow> string" where
  "cleanLeadingCommaOrSemicolon before = replace_first leading_regex [] before"

text \<open>\<open>/^\s*,/\<close>\<close>

definition trailing_regex :: regex where
  "trailing_regex = Seq Bol (Seq (Star (OneOf js_space)) (Lit '',''))"

definition cleanTrailingCommaOrSemicolon :: "string \<Rightarrow> string" where
  "cleanTrailingCommaOrSemicolon after = replace_first trailing_regex [] after"

text \<open>The result is \<open>(code, removed)\<close>.\<close>

definition removeStatement :: "string \<Rightarrow> statement \<Rightarrow> string \<times> bool" where
  "removeStatement code statement =
     (let before = take (s_start statement) code;
          after = drop (s_end statement) code;
          context = analyzeStatementContext code statement;
          (adjustedBefore, adjustedAfter) =
            (if isOnOwnLine context then removeEntireLine before after context
             else if isAtLineStart context then (before, cleanTrailingCommaOrSemicolon after)
             else if isAtLineEnd context then (cleanLeadingCommaOrSemicolon before, after)
             else (cleanLeadingCommaOrSemicolon before, cleanTrailingCommaOrSemicolon after))
      in (adjustedBefore @ adjustedAfter, True))"

subsection \<open>cleanWhitespace\<close>

text \<open>\<open>new RegExp(`(\\n\\s*){${maxLines + 1},}`, 'g')\<close>\<close>

definition blank_lines_regex :: "nat \<Rightarrow> regex" where
  "blank_lines_regex maxLines = AtLeast (maxLines + 1) (Seq (Lit [nl]) (Star (OneOf js_space)))"

text \<open>\<open>/[ \t]+$/gm\<close>\<close>

definition trailing_space_regex :: regex where
  "trailing_space_regex = Seq (Plus (OneOf [CHR 0x20, CHR 0x09])) EolM"

text \<open>\<open>/\n*$/\<close>\<close>

definition final_newlines_regex :: regex where
  "final_newlines_regex = Seq (Star (Lit [nl])) Eol"

definition cleanWhitespace_text :: "removal_config \<Rightarrow> string \<Rightarrow> string" where
  "cleanWhitespace_text c code =
     (let maxLines = maxEmptyLines c;
          pattern = blank_lines_regex maxLines;
          replacement = replicate maxLines nl;
          code1 = replace_global pattern replacement code;
          code2 = replace_global trailing_space_regex [] code1;
          code3 = replace_first final_newlines_regex [nl] code2
      in code3)"

subsection \<open>removeDebugStatements\<close>

text \<open>
  One round of \<open>sortedStatements.forEach\<close>, on \<open>(cleanCode, removedCount,
  this.removedStatements)\<close>.
\<close>

definition remove_step ::
  "statement \<Rightarrow> string \<times> nat \<times> removed_statement list \<Rightarrow> string \<times> nat \<times> removed_statement list" where
  "remove_step statement acc =
     (case acc of (current, n, removedList) \<Rightarrow>
        (case removeStatement current statement of (code', removed) \<Rightarrow>
           if removed
           then (code', n + 1,
                 removedList @ [statement.extend statement \<lparr> originalPosition = s_start statement \<rparr>])
           else (code', n, removedList)))"

text \<open>\<open>filteredStatements.sort((a, b) => b.start - a.start)\<close>: a stable sort.\<close>

definition sort_descending :: "statement list \<Rightarrow> statement list" where
  "sort_descending sts = sort_key (\<lambda>s. - int (s_start s)) sts"

text \<open>
  The method works on the object: the result is the returned value and the object after
  the call. The first early return leaves \<open>this.removedStatements\<close> as it was.
\<close>

definition removeDebugStatements ::
  "cleaner \<Rightarrow> string \<Rightarrow> statement list \<Rightarrow> clean_result \<times> cleaner" where
  "removeDebugStatements this code statements =
     (if statements = [] then
        (\<lparr> cleanCode = code, removedCount = 0, removedStatements = [] \<rparr>, this)
      else
        (let this1 = this \<lparr> this_removedStatements := [] \<rparr>;
             filteredStatements = filterStatementsByConfig (config this1) statements
         in if filteredStatements = [] then
              (\<lparr> cleanCode = code, removedCount = 0, removedStatements = [] \<rparr>, this1)
            else
              (case fold remove_step (sort_descending filteredStatements) (code, 0, []) of
                 (cleanCode1, n, removedList) \<Rightarrow>
                   (let cleanCode2 =
                          (if cleanWhitespace (config this1)
                           then cleanWhitespace_text (config this1) cleanCode1
                           else cleanCode1)
                    in (\<lparr> cleanCode = cleanCode2, removedCount = n,
                          removedStatements = rev removedList \<rparr>,
                        this1 \<lparr> this_removedStatements := rev removedList \<rparr>)))))"

section \<open>Notions used to state the properties\<close>

text \<open>
  The words a pattern can match, assertions aside: every match found by \<open>ends\<close> is one of
  them (lemma \<open>ends_sound\<close>).
\<close>

inductive_set star :: "string set \<Rightarrow> string set" for A :: "string set" where
  star_nil: "[] \<in> star A"
| star_app: "u \<in> A \<Longrightarrow> v \<in> star A \<Longrightarrow> u @ v \<in> star A"

fun lang :: "regex \<Rightarrow> string set" where
  "lang (Lit w) = {w}"
| "lang (OneOf cs) = {[c] | c. c \<in> set cs}"
| "lang (NoneOf cs) = {[c] | c. c \<notin> set cs}"
| "lang (Seq a b) = {u @ v | u v. u \<in> lang a \<and> v \<in> lang b}"
| "lang (Alt a b) = lang a \<union> lang b"
| "lang (Opt a) = insert [] (lang a)"
| "lang (Star a) = star (lang a)"
| "lang Bol = {[]}"
| "lang Eol = {[]}"
| "lang EolM = {[]}"



text \<open>
  What the end \<open>\s*;?\s*\<close> of a pattern leaves of the text behind a call: the whitespace
  at its start is taken, then a semicolon if one follows, then the whitespace behind
  that.
\<close>

definition strip_semicolon :: "string \<Rightarrow> string" where
  "strip_semicolon r = (case r of [] \<Rightarrow> [] | c # r' \<Rightarrow> if c = CHR '';'' then r' else r)"

definition tail_end :: "string \<Rightarrow> string" where
  "tail_end r = dropWhile is_space (strip_semicolon (dropWhile is_space r))"

text \<open>The offsets of a node the structural parser reports.\<close>

fun node_start :: "visited \<Rightarrow> nat" where
  "node_start (CallExpression c a b) = a"
| "node_start (DebuggerStatement a b) = a"

fun node_end :: "visited \<Rightarrow> nat" where
  "node_end (CallExpression c a b) = b"
| "node_end (DebuggerStatement a b) = b"

text \<open>
  The position \<open>j\<close> code units behind a position, and the position at index \<open>j\<close> of a
  text.
\<close>

definition pos_after :: "pos \<Rightarrow> nat \<Rightarrow> pos" where
  "pos_after x j = (if j = 0 then fst x else Some (snd x ! (j - 1)), drop j (snd x))"

definition pos_at :: "string \<Rightarrow> nat \<Rightarrow> pos" where
  "pos_at s j = pos_after (None, s) j"












section \<open>Example inputs\<close>

text \<open>A cleaner as \<open>new CodeCleaner()\<close> makes it.\<close>

definition new_cleaner :: cleaner where
  "new_cleaner = \<lparr> config = default_config, this_removedStatements = [] \<rparr>"

text \<open>One line with a \<open>print\<close> call and a \<open>debugger\<close> statement between other calls.\<close>

definition two_in_line :: string where
  "two_in_line = ''a(); print(1); b(); debugger; c();''"

definition two_in_line_statements :: "statement list" where
  "two_in_line_statements =
     [\<lparr> s_type = ''debugger'', s_line = 1, s_column = 20, s_start = 20, s_end = 29,
          s_text = ''debugger;'', s_lineContent = two_in_line \<rparr>,
      \<lparr> s_type = ''print'', s_line = 1, s_column = 5, s_start = 5, s_end = 14,
          s_text = ''print(1);'', s_lineContent = two_in_line \<rparr>]"

text \<open>Scenario 3 of the specification, and the statement the structural pass reports.\<close>

definition inline_code :: string where
  "inline_code = ''const r = f(); console.log(r); return r;''"

definition inline_statement :: statement where
  "inline_statement =
     \<lparr> s_type = ''console'', s_line = 1, s_column = 15, s_start = 15, s_end = 30,
       s_text = ''console.log(r);'', s_lineContent = inline_code \<rparr>"



text \<open>Scenario 5 of the specification: one \<open>console.error\<close> call and one \<open>console.log\<close> call.\<close>

definition error_and_log :: string where
  "error_and_log = ''console.error(e);\<newline>console.log(l);''"

definition error_statement :: statement where
  "error_statement =
     \<lparr> s_type = ''console'', s_line = 1, s_column = 0, s_start = 0, s_end = 17,
       s_text = ''console.error(e);'', s_lineContent = ''console.error(e);'' \<rparr>"



text \<open>
  A structural parser that rejects every text, as the real one rejects a text with an
  unbalanced brace, and such a text.
\<close>

definition rejecting_parser :: babel where
  "rejecting_parser code ps = Inl ''Unexpected token''"

definition unbalanced :: string where
  "unbalanced = ''function f() { console.log(1);''"

text \<open>What the structural parser reports for Scenario 3: the call at 15 to 29.\<close>

definition inline_parser :: babel where
  "inline_parser code ps =
     Inr [CallExpression (MemberExpression (Identifier ''console'') (Identifier ''log'')) 15 29]"

text \<open>A call over several lines, and what the fallback scanner reports for it.\<close>

definition multiline_call :: string where
  "multiline_call = ''console.log(\<newline>  a,\<newline>  b\<newline>);\<newline>next();''"

definition multiline_statement :: statement where
  "multiline_statement =
     \<lparr> s_type = ''console'', s_line = 1, s_column = 0, s_start = 0, s_end = 25,
       s_text = ''console.log(\<newline>  a,\<newline>  b\<newline>);\<newline>'', s_lineContent = ''console.log('' \<rparr>"













section \<open>Lemmas on the matcher\<close>

text \<open>
  The equations of the recursive searches are unfolded by hand in the proofs below; as
  rewrite rules they would be applied without end.
\<close>

declare ends.simps(9) [simp del]
declare exec_loop.simps [simp del]
declare search.simps [simp del]
declare replace_all.simps [simp del]

lemma ends_sound: "y \<in> set (ends r x) \<Longrightarrow> \<exists>w \<in> lang r. snd x = w @ snd y"
proof (induction r x arbitrary: y rule: ends.induct)
  case (1 w p s)
  then have "take (length w) s = w" and "snd y = drop (length w) s"
    by (auto split: if_splits)
  then have "s = w @ snd y" by (metis append_take_drop_id)
  then show ?case by simp
next
  case (2 cs p)
  then show ?case by simp
next
  case (3 cs p c s)
  then show ?case by (simp split: if_splits)
next
  case (4 cs p)
  then show ?case by simp
next
  case (5 cs p c s)
  then show ?case by (simp split: if_splits)
next
  case (6 a b x)
  from "6.prems" obtain z where z: "z \<in> set (ends a x)" and y: "y \<in> set (ends b z)"
    by auto
  from "6.IH"(1) [OF z] obtain u where u: "u \<in> lang a" "snd x = u @ snd z" by blast
  from "6.IH"(2) [OF z y] obtain v where v: "v \<in> lang b" "snd z = v @ snd y" by blast
  from u v show ?case by auto
next
  case (7 a b x)
  from "7.prems" have "y \<in> set (ends a x) \<or> y \<in> set (ends b x)" by auto
  with "7.IH" show ?case by fastforce
next
  case (8 a x)
  from "8.prems" have "y \<in> set (ends a x) \<or> y = x" by auto
  with "8.IH" show ?case by fastforce
next
  case (9 a x)
  show ?case
  proof (cases "y = x")
    case True
    then show ?thesis by (simp add: star_nil)
  next
    case False
    have "y \<in> set (concat (map (\<lambda>z. if length (snd z) < length (snd x)
              then ends (Star a) z else []) (ends a x)) @ [x])"
      using "9.prems" by (subst (asm) ends.simps(9))
    with False obtain z where z: "z \<in> set (ends a x)"
      and yz: "y \<in> set (if length (snd z) < length (snd x) then ends (Star a) z else [])"
      by auto
    have len: "length (snd z) < length (snd x)"
      using yz by (cases "length (snd z) < length (snd x)") simp_all
    have y: "y \<in> set (ends (Star a) z)"
      using yz len by (simp only: if_True)
    from "9.IH"(1) [OF z] obtain u where u: "u \<in> lang a" "snd x = u @ snd z" by blast
    from "9.IH"(2) [OF z len y] obtain v where v: "v \<in> lang (Star a)" "snd z = v @ snd y" by blast
    from u v have "u @ v \<in> lang (Star a)" by (auto intro: star_app)
    with u v show ?thesis by auto
  qed
next
  case (10 p s)
  then show ?case by (simp split: if_splits)
next
  case (11 p s)
  then show ?case by (simp split: if_splits)
next
  case (12 p s)
  then show ?case by (simp split: if_splits list.splits)
qed

lemma star_OneOf: "w \<in> star (lang (OneOf cs)) \<Longrightarrow> set w \<subseteq> set cs"
  by (induction rule: star.induct) auto

lemma star_NoneOf: "w \<in> star (lang (NoneOf cs)) \<Longrightarrow> set w \<inter> set cs = {}"
  by (induction rule: star.induct) auto

lemma lang_Alts_Lit: "lang (Alts (map Lit ms)) = set ms"
proof (induction ms)
  case Nil
  then show ?case by simp
next
  case (Cons m ms)
  then show ?case by (cases ms) auto
qed


lemma ends_nonempty:
  assumes "[] \<notin> lang r" and "y \<in> set (ends r (p, s))"
  shows "length (snd y) < length s"
proof -
  from ends_sound [OF assms(2)] obtain w where w: "w \<in> lang r" "s = w @ snd y" by auto
  with assms(1) have "w \<noteq> []" by auto
  with w show ?thesis by (metis add_diff_cancel_right' length_append length_greater_0_conv less_add_same_cancel2)
qed

lemma exec_loop_matches:
  "exec_loop r i x = Some ms \<Longrightarrow> (a, b) \<in> set ms \<Longrightarrow>
     i \<le> a \<and> a < b \<and> b \<le> i + length (snd x) \<and> take (b - a) (drop (a - i) (snd x)) \<in> lang r"
proof (induction r i x arbitrary: ms rule: exec_loop.induct)
  case (1 r i p s)
  show ?case
  proof (cases "ends r (p, s)")
    case Nil
    show ?thesis
    proof (cases s)
      case Nil': Nil
      with Nil "1.prems" show ?thesis by (simp add: exec_loop.simps)
    next
      case (Cons c s')
      with Nil "1.prems" have e: "exec_loop r (Suc i) (Some c, s') = Some ms"
        by (simp add: exec_loop.simps)
      from "1.IH"(1) [OF Nil Cons e "1.prems"(2)]
      have h: "Suc i \<le> a" "a < b" "b \<le> Suc i + length s'"
        "take (b - a) (drop (a - Suc i) s') \<in> lang r" by simp_all
      from h(1) have "a - i = Suc (a - Suc i)" by arith
      then have "drop (a - i) (c # s') = drop (a - Suc i) s'"
        by simp
      with h Cons show ?thesis by simp
    qed
  next
    case (Cons y ys)
    let ?e = "i + (length s - length (snd y))"
    show ?thesis
    proof (cases "length (snd y) < length s")
      case False
      with Cons "1.prems" show ?thesis by (simp add: exec_loop.simps)
    next
      case True
      with Cons "1.prems" obtain ms' where ms': "exec_loop r ?e y = Some ms'" "ms = (i, ?e) # ms'"
        by (auto simp: exec_loop.simps)
      have "y \<in> set (ends r (p, s))" using Cons by simp
      from ends_sound [OF this] obtain w where w: "w \<in> lang r" "s = w @ snd y" by auto
      then have lw: "length s - length (snd y) = length w" by simp
      show ?thesis
      proof (cases "(a, b) = (i, ?e)")
        case True': True
        with True w lw show ?thesis by simp
      next
        case False
        with ms' "1.prems" have "(a, b) \<in> set ms'" by auto
        from "1.IH"(2) [OF Cons True ms'(1) this]
        have h: "?e \<le> a" "a < b" "b \<le> ?e + length (snd y)"
          "take (b - a) (drop (a - ?e) (snd y)) \<in> lang r" by simp_all
        have "drop (a - i) s = drop (a - ?e) (snd y)"
          using h(1) w lw by simp
        with h True show ?thesis by simp
      qed
    qed
  qed
qed

lemma exec_loop_total:
  "[] \<notin> lang r \<Longrightarrow> \<exists>ms. exec_loop r i x = Some ms"
proof (induction r i x rule: exec_loop.induct)
  case (1 r i p s)
  show ?case
  proof (cases "ends r (p, s)")
    case Nil
    show ?thesis
    proof (cases s)
      case Nil': Nil
      with Nil show ?thesis by (simp add: exec_loop.simps)
    next
      case (Cons c s')
      from "1.IH"(1) [OF Nil Cons "1.prems"] Nil Cons show ?thesis
        by (simp add: exec_loop.simps)
    qed
  next
    case (Cons y ys)
    then have "y \<in> set (ends r (p, s))" by simp
    from ends_nonempty [OF "1.prems" this] have len: "length (snd y) < length s" .
    from "1.IH"(2) [OF Cons len "1.prems"] Cons len show ?thesis
      by (auto simp: exec_loop.simps)
  qed
qed

lemma search_bounds:
  "search r i x = Some (a, n) \<Longrightarrow> i \<le> a \<and> a + n \<le> i + length (snd x)"
proof (induction r i x rule: search.induct)
  case (1 r i p s)
  show ?case
  proof (cases "ends r (p, s)")
    case Nil
    show ?thesis
    proof (cases s)
      case Nil': Nil
      with Nil "1.prems" show ?thesis by (simp add: search.simps)
    next
      case (Cons c s')
      with Nil "1.prems" have "search r (Suc i) (Some c, s') = Some (a, n)"
        by (simp add: search.simps)
      from "1.IH" [OF Nil Cons this] Cons show ?thesis by simp
    qed
  next
    case (Cons y ys)
    with "1.prems" show ?thesis by (auto simp: search.simps)
  qed
qed

lemma ends_prev:
  "y \<in> set (ends r x) \<Longrightarrow>
   \<exists>w. snd x = w @ snd y \<and> fst y = (if w = [] then fst x else Some (last w))"
proof (induction r x arbitrary: y rule: ends.induct)
  case (1 w p s)
  have c: "take (length w) s = w"
    using "1.prems" by (cases "take (length w) s = w") simp_all
  have "y = (if w = [] then p else Some (last w), drop (length w) s)"
    using "1.prems" by (simp split: if_splits)
  then have y: "snd y = drop (length w) s" "fst y = (if w = [] then p else Some (last w))"
    by simp_all
  have "s = w @ drop (length w) s"
    using c by (metis append_take_drop_id)
  with y have "snd (p, s) = w @ snd y \<and> fst y = (if w = [] then fst (p, s) else Some (last w))"
    by simp
  then show ?case by blast
next
  case (2 cs p)
  then show ?case by simp
next
  case (3 cs p c s)
  then have "y = (Some c, s)" by (simp split: if_splits)
  then have "snd (p, c # s) = [c] @ snd y \<and> fst y = (if [c] = [] then fst (p, c # s) else Some (last [c]))"
    by simp
  then show ?case by blast
next
  case (4 cs p)
  then show ?case by simp
next
  case (5 cs p c s)
  then have "y = (Some c, s)" by (simp split: if_splits)
  then have "snd (p, c # s) = [c] @ snd y \<and> fst y = (if [c] = [] then fst (p, c # s) else Some (last [c]))"
    by simp
  then show ?case by blast
next
  case (6 a b x)
  from "6.prems" obtain z where z: "z \<in> set (ends a x)" and y: "y \<in> set (ends b z)"
    by auto
  from "6.IH"(1) [OF z] obtain u where
    u: "snd x = u @ snd z" "fst z = (if u = [] then fst x else Some (last u))" by blast
  from "6.IH"(2) [OF z y] obtain v where
    v: "snd z = v @ snd y" "fst y = (if v = [] then fst z else Some (last v))" by blast
  from u v have "snd x = (u @ v) @ snd y \<and>
      fst y = (if u @ v = [] then fst x else Some (last (u @ v)))"
    by simp
  then show ?case by blast
next
  case (7 a b x)
  from "7.prems" have "y \<in> set (ends a x) \<or> y \<in> set (ends b x)" by auto
  with "7.IH" show ?case by blast
next
  case (8 a x)
  from "8.prems" have "y \<in> set (ends a x) \<or> y = x" by auto
  then show ?case
  proof
    assume "y \<in> set (ends a x)"
    with "8.IH" show ?thesis by blast
  next
    assume "y = x"
    then have "snd x = [] @ snd y \<and> fst y = (if ([]::string) = [] then fst x else Some (last []))"
      by simp
    then show ?thesis by blast
  qed
next
  case (9 a x)
  show ?case
  proof (cases "y = x")
    case True
    then have "snd x = [] @ snd y \<and> fst y = (if ([]::string) = [] then fst x else Some (last []))"
      by simp
    then show ?thesis by blast
  next
    case False
    have "y \<in> set (concat (map (\<lambda>z. if length (snd z) < length (snd x)
              then ends (Star a) z else []) (ends a x)) @ [x])"
      using "9.prems" by (subst (asm) ends.simps(9))
    with False obtain z where z: "z \<in> set (ends a x)"
      and yz: "y \<in> set (if length (snd z) < length (snd x) then ends (Star a) z else [])"
      by auto
    have len: "length (snd z) < length (snd x)"
      using yz by (cases "length (snd z) < length (snd x)") simp_all
    have y: "y \<in> set (ends (Star a) z)"
      using yz len by (simp only: if_True)
    from "9.IH"(1) [OF z] obtain u where
      u: "snd x = u @ snd z" "fst z = (if u = [] then fst x else Some (last u))" by blast
    from "9.IH"(2) [OF z len y] obtain v where
      v: "snd z = v @ snd y" "fst y = (if v = [] then fst z else Some (last v))" by blast
    from u v have "snd x = (u @ v) @ snd y \<and>
        fst y = (if u @ v = [] then fst x else Some (last (u @ v)))"
      by simp
    then show ?thesis by blast
  qed
next
  case (10 p s)
  then have "y = (p, s)" by (simp split: if_splits)
  then have "snd (p, s) = [] @ snd y \<and> fst y = (if ([]::string) = [] then fst (p, s) else Some (last []))"
    by simp
  then show ?case by blast
next
  case (11 p s)
  then have "y = (p, s)" by (simp split: if_splits)
  then have "snd (p, s) = [] @ snd y \<and> fst y = (if ([]::string) = [] then fst (p, s) else Some (last []))"
    by simp
  then show ?case by blast
next
  case (12 p s)
  then have "y = (p, s)" by (simp split: if_splits list.splits)
  then have "snd (p, s) = [] @ snd y \<and> fst y = (if ([]::string) = [] then fst (p, s) else Some (last []))"
    by simp
  then show ?case by blast
qed

lemma advance_pos:
  assumes "s = w @ t" and "q = (if w = [] then p else Some (last w))" and "length w \<le> j"
  shows "(if j = 0 then p else Some (s ! (j - 1)), drop j s) =
         (if j - length w = 0 then q else Some (t ! (j - length w - 1)), drop (j - length w) t)"
proof (cases "j = length w")
  case True
  show ?thesis
  proof (cases "w = []")
    case True
    with \<open>j = length w\<close> assms show ?thesis by simp
  next
    case False
    then have "(w @ t) ! (length w - 1) = last w"
      by (simp add: nth_append last_conv_nth)
    with False \<open>j = length w\<close> assms show ?thesis by simp
  qed
next
  case False
  with assms(3) have lt: "length w < j" by simp
  then have "\<not> j - 1 < length w" by arith
  then have "(w @ t) ! (j - 1) = t ! (j - 1 - length w)"
    by (simp add: nth_append)
  moreover have "j - 1 - length w = j - length w - 1" by arith
  ultimately have "(w @ t) ! (j - 1) = t ! (j - length w - 1)" by simp
  with lt assms(1) show ?thesis by simp
qed


lemma pos_after_advance:
  assumes "snd x = w @ snd y" and "fst y = (if w = [] then fst x else Some (last w))"
    and "length w \<le> j"
  shows "pos_after x j = pos_after y (j - length w)"
  unfolding pos_after_def using assms by (rule advance_pos)

lemma pos_after_0: "pos_after x 0 = x"
  by (simp add: pos_after_def)

lemma exec_loop_covers:
  "exec_loop r i x = Some ms \<Longrightarrow> j \<le> length (snd x) \<Longrightarrow>
   ends r (pos_after x j) \<noteq> [] \<Longrightarrow>
   \<exists>m \<in> set ms. fst m \<le> i + j \<and> i + j < snd m"
proof (induction r i x arbitrary: ms j rule: exec_loop.induct)
  case (1 r i p s)
  show ?case
  proof (cases "ends r (p, s)")
    case Nil
    have j0: "j \<noteq> 0"
    proof
      assume "j = 0"
      with "1.prems"(3) Nil show False by (simp add: pos_after_0)
    qed
    with "1.prems"(2) obtain c s' where s: "s = c # s'" by (cases s) auto
    with Nil "1.prems"(1) have e: "exec_loop r (Suc i) (Some c, s') = Some ms"
      by (simp add: exec_loop.simps)
    from j0 "1.prems"(2) s have j1: "j - 1 \<le> length (snd (Some c, s'))" by simp
    have "pos_after (p, s) j = pos_after (Some c, s') (j - length [c])"
      using j0 by (intro pos_after_advance) (simp_all add: s)
    with "1.prems"(3) have "ends r (pos_after (Some c, s') (j - 1)) \<noteq> []"
      by simp
    from "1.IH"(1) [OF Nil s e j1 this] obtain m where
      "m \<in> set ms" "fst m \<le> Suc i + (j - 1)" "Suc i + (j - 1) < snd m" by blast
    with j0 show ?thesis by auto
  next
    case (Cons y ys)
    let ?n = "length s - length (snd y)"
    let ?e = "i + ?n"
    show ?thesis
    proof (cases "length (snd y) < length s")
      case False
      with Cons "1.prems" show ?thesis by (simp add: exec_loop.simps)
    next
      case True
      with Cons "1.prems" obtain ms' where ms': "exec_loop r ?e y = Some ms'" "ms = (i, ?e) # ms'"
        by (auto simp: exec_loop.simps)
      show ?thesis
      proof (cases "j < ?n")
        case True
        then have "i + j < ?e" by arith
        with ms'(2) have "(i, ?e) \<in> set ms \<and> fst (i, ?e) \<le> i + j \<and> i + j < snd (i, ?e)"
          by simp
        then show ?thesis by blast
      next
        case False
        have "y \<in> set (ends r (p, s))" using Cons by simp
        from ends_prev [OF this] obtain w where
          w: "snd (p, s) = w @ snd y" "fst y = (if w = [] then fst (p, s) else Some (last w))"
          by blast
        then have lw: "?n = length w" by simp
        with False have le: "length w \<le> j" by simp
        from pos_after_advance [OF w le] "1.prems"(3)
        have m: "ends r (pos_after y (j - ?n)) \<noteq> []"
          by (simp add: lw)
        from "1.prems"(2) w have "j - ?n \<le> length (snd y)" by simp
        from "1.IH"(2) [OF Cons True ms'(1) this m]
        obtain m where m': "m \<in> set ms'" "fst m \<le> ?e + (j - ?n)" "?e + (j - ?n) < snd m"
          by blast
        from False have "?e + (j - ?n) = i + j" by arith
        with m' ms'(2) have "m \<in> set ms \<and> fst m \<le> i + j \<and> i + j < snd m" by simp
        then show ?thesis by blast
      qed
    qed
  qed
qed

lemma concat_map_hd:
  "concat (map f zs) = y # ys \<Longrightarrow> \<exists>z \<in> set zs. \<exists>ys'. f z = y # ys'"
proof (induction zs)
  case Nil
  then show ?case by simp
next
  case (Cons z zs)
  then show ?case by (cases "f z") auto
qed

lemma ends_Seq_hd:
  assumes "ends (Seq a b) x = y # ys"
  obtains z ys' where "z \<in> set (ends a x)" "ends b z = y # ys'"
  using assms concat_map_hd [of "ends b" "ends a x" y ys] by auto

lemma ends_star_class:
  "\<exists>q ys. ends (Star (OneOf cs)) (p, s) = (q, dropWhile (\<lambda>c. c \<in> set cs) s) # ys"
proof (induction s arbitrary: p)
  case Nil
  then show ?case by (simp add: ends.simps(9))
next
  case (Cons c s)
  show ?case
  proof (cases "c \<in> set cs")
    case True
    from Cons [of "Some c"] obtain q ys where
      "ends (Star (OneOf cs)) (Some c, s) = (q, dropWhile (\<lambda>c. c \<in> set cs) s) # ys" by blast
    with True show ?thesis by (simp add: ends.simps(9) [of _ "(p, c # s)"])
  next
    case False
    then show ?thesis by (simp add: ends.simps(9) [of _ "(p, c # s)"])
  qed
qed

lemma ends_opt_semicolon:
  "\<exists>q ys. ends (Opt (Lit '';'')) (p, s) = (q, strip_semicolon s) # ys"
proof (cases s)
  case Nil
  then show ?thesis by (simp add: strip_semicolon_def)
next
  case (Cons c s')
  then show ?thesis by (cases "c = CHR '';''") (simp_all add: strip_semicolon_def)
qed

lemma ends_pattern_tail:
  "\<exists>q ys. ends pattern_tail (p, s) = (q, tail_end s) # ys"
proof -
  let ?sp = "Star (OneOf js_space)"
  have sp: "\<And>p s. \<exists>q ys. ends ?sp (p, s) = (q, dropWhile is_space s) # ys"
    using ends_star_class [of js_space] by (simp add: is_space_def [abs_def])
  from sp [of p s] obtain q1 ys1 where 1: "ends ?sp (p, s) = (q1, dropWhile is_space s) # ys1"
    by blast
  from ends_opt_semicolon [of q1 "dropWhile is_space s"] obtain q2 ys2 where
    2: "ends (Opt (Lit '';'')) (q1, dropWhile is_space s) =
        (q2, strip_semicolon (dropWhile is_space s)) # ys2" by blast
  from sp [of q2 "strip_semicolon (dropWhile is_space s)"] obtain q3 ys3 where
    3: "ends ?sp (q2, strip_semicolon (dropWhile is_space s)) = (q3, tail_end s) # ys3"
    by (auto simp: tail_end_def)
  from 1 2 3 show ?thesis by (simp add: pattern_tail_def)
qed


lemma exec_loop_first:
  "exec_loop r i x = Some ms \<Longrightarrow> (a, b) \<in> set ms \<Longrightarrow>
   \<exists>y ys. ends r (pos_after x (a - i)) = y # ys \<and> snd y = drop (b - i) (snd x)"
proof (induction r i x arbitrary: ms rule: exec_loop.induct)
  case (1 r i p s)
  from exec_loop_matches [OF "1.prems"] have ab: "i \<le> a" "a < b" by simp_all
  show ?case
  proof (cases "ends r (p, s)")
    case Nil
    show ?thesis
    proof (cases s)
      case Nil': Nil
      with Nil "1.prems" show ?thesis by (simp add: exec_loop.simps)
    next
      case (Cons c s')
      with Nil "1.prems" have e: "exec_loop r (Suc i) (Some c, s') = Some ms"
        by (simp add: exec_loop.simps)
      from exec_loop_matches [OF e "1.prems"(2)] have sa: "Suc i \<le> a" by simp
      from "1.IH"(1) [OF Nil Cons e "1.prems"(2)] obtain y ys where
        y: "ends r (pos_after (Some c, s') (a - Suc i)) = y # ys" "snd y = drop (b - Suc i) s'"
        by auto
      have "pos_after (p, s) (a - i) = pos_after (Some c, s') (a - i - length [c])"
        using sa by (intro pos_after_advance) (simp_all add: Cons)
      moreover have "a - i - length [c] = a - Suc i" by simp
      moreover from sa ab have "b - i = Suc (b - Suc i)" by arith
      then have "drop (b - i) s = drop (b - Suc i) s'" by (simp add: Cons)
      ultimately show ?thesis using y by simp
    qed
  next
    case (Cons y0 ys0)
    let ?n = "length s - length (snd y0)"
    let ?e = "i + ?n"
    show ?thesis
    proof (cases "length (snd y0) < length s")
      case False
      with Cons "1.prems" show ?thesis by (simp add: exec_loop.simps)
    next
      case True
      with Cons "1.prems" obtain ms' where ms': "exec_loop r ?e y0 = Some ms'" "ms = (i, ?e) # ms'"
        by (auto simp: exec_loop.simps)
      have "y0 \<in> set (ends r (p, s))" using Cons by simp
      from ends_prev [OF this] obtain w where
        w: "snd (p, s) = w @ snd y0" "fst y0 = (if w = [] then fst (p, s) else Some (last w))"
        by blast
      then have lw: "?n = length w" by simp
      show ?thesis
      proof (cases "(a, b) = (i, ?e)")
        case True': True
        then have "a - i = 0" "b - i = length w" using lw by simp_all
        with Cons w show ?thesis by (simp add: pos_after_0)
      next
        case False
        with ms' "1.prems" have m: "(a, b) \<in> set ms'" by auto
        from exec_loop_matches [OF ms'(1) m] have ea: "?e \<le> a" by simp
        from "1.IH"(2) [OF Cons True ms'(1) m] obtain y ys where
          y: "ends r (pos_after y0 (a - ?e)) = y # ys" "snd y = drop (b - ?e) (snd y0)"
          by auto
        from ea lw have le: "length w \<le> a - i" by arith
        have "pos_after (p, s) (a - i) = pos_after y0 (a - i - length w)"
          using w le by (rule pos_after_advance)
        moreover from ea lw have "a - i - length w = a - ?e" by arith
        moreover from ea ab lw have "b - i = length w + (b - ?e)" by arith
        then have "drop (b - i) s = drop (b - ?e) (snd y0)"
          using w by simp
        ultimately show ?thesis using y by simp
      qed
    qed
  qed
qed

section \<open>Lemmas on the parser\<close>

lemma substring_in_range:
  "a \<le> b \<Longrightarrow> b \<le> length s \<Longrightarrow> substring s a b = take (b - a) (drop a s)"
  by (simp add: substring_def Let_def min_def max_def)

lemma fallback_statement_fields:
  "s_type (fallback_statement code ty m) = ty"
  "s_start (fallback_statement code ty m) = fst m"
  "s_end (fallback_statement code ty m) = snd m"
  "s_text (fallback_statement code ty m) = substring code (fst m) (snd m)"
  by (simp_all add: fallback_statement_def Let_def split: prod.splits)

lemma fallback_collect_elem:
  "fallback_collect ps code = Some sts \<Longrightarrow> s \<in> set sts \<Longrightarrow>
   \<exists>r ty ms m. (r, ty) \<in> set ps \<and> exec_loop r 0 (None, code) = Some ms \<and> m \<in> set ms \<and>
     s = fallback_statement code ty m"
proof (induction ps code arbitrary: sts rule: fallback_collect.induct)
  case (1 code)
  then show ?case by simp
next
  case (2 regex type ps code)
  from "2.prems"(1) obtain ms rest where ms: "exec_loop regex 0 (None, code) = Some ms"
    and rest: "fallback_collect ps code = Some rest"
    and sts: "sts = map (fallback_statement code type) ms @ rest"
    by (auto split: option.splits)
  from "2.prems"(2) sts consider "s \<in> set (map (fallback_statement code type) ms)" | "s \<in> set rest"
    by auto
  then show ?case
  proof cases
    case 1
    then obtain m where "m \<in> set ms" "s = fallback_statement code type m" by auto
    with ms have "(regex, type) \<in> set ((regex, type) # ps) \<and>
        exec_loop regex 0 (None, code) = Some ms \<and> m \<in> set ms \<and>
        s = fallback_statement code type m" by simp
    then show ?thesis by blast
  next
    case 2
    from "2.IH" [OF ms rest 2] obtain r ty ms' m where
      "(r, ty) \<in> set ps \<and> exec_loop r 0 (None, code) = Some ms' \<and> m \<in> set ms' \<and>
        s = fallback_statement code ty m" by blast
    then have "(r, ty) \<in> set ((regex, type) # ps) \<and>
        exec_loop r 0 (None, code) = Some ms' \<and> m \<in> set ms' \<and>
        s = fallback_statement code ty m" by simp
    then show ?thesis by blast
  qed
qed

lemma fallback_collect_total:
  "\<forall>(r, ty) \<in> set ps. [] \<notin> lang r \<Longrightarrow> \<exists>sts. fallback_collect ps code = Some sts"
proof (induction ps code rule: fallback_collect.induct)
  case (1 code)
  then show ?case by simp
next
  case (2 regex type ps code)
  then have ne: "[] \<notin> lang regex" by simp
  from exec_loop_total [OF ne] obtain ms where ms: "exec_loop regex 0 (None, code) = Some ms"
    by blast
  from "2.IH" [OF ms] "2.prems" obtain rest where "fallback_collect ps code = Some rest"
    by auto
  with ms show ?case by simp
qed

lemma patterns_nonempty: "\<forall>(r, ty) \<in> set patterns. [] \<notin> lang r"
  by (simp add: patterns_def console_regex_def print_regex_def system_out_regex_def
      debugger_regex_def)

lemma fallbackRegexParse_total: "\<exists>sts. fallbackRegexParse code = Some sts"
  using fallback_collect_total [OF patterns_nonempty, of code]
  by (auto simp: fallbackRegexParse_def)

lemma fallbackRegexParse_elem:
  assumes "fallbackRegexParse code = Some sts" and "s \<in> set sts"
  shows "\<exists>r a b. (r, s_type s) \<in> set patterns \<and> a < b \<and> b \<le> length code \<and>
           s_start s = a \<and> s_end s = b \<and> s_text s = take (b - a) (drop a code) \<and>
           take (b - a) (drop a code) \<in> lang r \<and>
           (\<exists>y ys. ends r (pos_at code a) = y # ys \<and> snd y = drop b code)"
proof -
  from assms obtain sts' where c: "fallback_collect patterns code = Some sts'"
    and s: "s \<in> set sts'"
    by (auto simp: fallbackRegexParse_def)
  from fallback_collect_elem [OF c s] obtain r ty ms m where
    r: "(r, ty) \<in> set patterns" and ms: "exec_loop r 0 (None, code) = Some ms"
    and m: "m \<in> set ms" and st: "s = fallback_statement code ty m"
    by blast
  obtain a b where ab: "m = (a, b)" by (cases m)
  from exec_loop_matches [OF ms m [unfolded ab]]
  have h: "a < b" "b \<le> length code" "take (b - a) (drop a code) \<in> lang r" by simp_all
  from exec_loop_first [OF ms m [unfolded ab]]
  have f: "\<exists>y ys. ends r (pos_at code a) = y # ys \<and> snd y = drop b code"
    by (simp add: pos_at_def)
  from h have "substring code a b = take (b - a) (drop a code)"
    by (simp add: substring_in_range)
  with r h st ab have "(r, s_type s) \<in> set patterns \<and> a < b \<and> b \<le> length code \<and>
           s_start s = a \<and> s_end s = b \<and> s_text s = take (b - a) (drop a code) \<and>
           take (b - a) (drop a code) \<in> lang r"
    by (simp add: fallback_statement_fields)
  with f show ?thesis by blast
qed

lemma addDebugStatement_offsets:
  assumes "addDebugStatement a b code ty = Inr st" and "a < b" and "b \<le> length code"
  shows "s_start st < s_end st \<and> s_end st \<le> length code"
proof (cases "js_match semicolon_regex (drop b code)")
  case None
  with assms show ?thesis
    by (auto simp: addDebugStatement_def Let_def split: prod.splits if_splits)
next
  case (Some m)
  obtain i n where m: "m = (i, n)" by (cases m)
  from Some m have "search semicolon_regex 0 (None, drop b code) = Some (i, n)"
    by (simp add: js_match_def)
  from search_bounds [OF this] have "i + n \<le> length code - b" by simp
  with assms(3) have "b + n \<le> length code" by arith
  with assms Some m show ?thesis
    by (auto simp: addDebugStatement_def Let_def split: prod.splits if_splits)
qed

lemma traverse_offsets:
  assumes "traverse nodes code acc = Inr sts"
    and "\<forall>v \<in> set nodes. node_start v < node_end v \<and> node_end v \<le> length code"
    and "\<forall>s \<in> set acc. s_start s < s_end s \<and> s_end s \<le> length code"
  shows "\<forall>s \<in> set sts. s_start s < s_end s \<and> s_end s \<le> length code"
  using assms
proof (induction nodes code acc rule: traverse.induct)
  case (1 code acc)
  then show ?case by simp
next
  case (2 v vs code acc)
  let ?h = "case v of CallExpression c a b \<Rightarrow> handleCallExpression c a b code
            | DebuggerStatement a b \<Rightarrow> handleDebuggerStatement a b code"
  from "2.prems"(2) have v: "node_start v < node_end v" "node_end v \<le> length code"
    and vs: "\<forall>v \<in> set vs. node_start v < node_end v \<and> node_end v \<le> length code"
    by simp_all
  show ?case
  proof (cases ?h)
    case None
    with "2.prems"(1) have "traverse vs code acc = Inr sts" by simp
    from "2.IH"(1) [OF None this vs "2.prems"(3)] show ?thesis .
  next
    case (Some res)
    show ?thesis
    proof (cases res)
      case (Inl e)
      with Some "2.prems"(1) show ?thesis by simp
    next
      case (Inr st)
      with Some "2.prems"(1) have t: "traverse vs code (acc @ [st]) = Inr sts" by simp
      from Some Inr obtain ty where "addDebugStatement (node_start v) (node_end v) code ty = Inr st"
        by (cases v)
          (auto simp: handleCallExpression_def handleDebuggerStatement_def split: if_splits)
      from addDebugStatement_offsets [OF this v]
      have "s_start st < s_end st \<and> s_end st \<le> length code" .
      with "2.prems"(3)
      have "\<forall>s \<in> set (acc @ [st]). s_start s < s_end s \<and> s_end s \<le> length code" by auto
      from "2.IH"(2) [OF Some Inr t vs this] show ?thesis .
    qed
  qed
qed

lemma pattern_of_console: "(r, ''console'') \<in> set patterns \<Longrightarrow> r = console_regex"
  by (auto simp: patterns_def)

lemma fallback_collect_covers:
  assumes "fallback_collect ps code = Some sts" and "(r, ty) \<in> set ps"
    and "j \<le> length code" and "ends r (pos_at code j) \<noteq> []"
  shows "\<exists>s \<in> set sts. s_type s = ty \<and> s_start s \<le> j \<and> j < s_end s"
  using assms
proof (induction ps code arbitrary: sts rule: fallback_collect.induct)
  case (1 code)
  then show ?case by simp
next
  case (2 regex type ps code)
  from "2.prems"(1) obtain ms rest where ms: "exec_loop regex 0 (None, code) = Some ms"
    and rest: "fallback_collect ps code = Some rest"
    and sts: "sts = map (fallback_statement code type) ms @ rest"
    by (auto split: option.splits)
  show ?case
  proof (cases "(r, ty) = (regex, type)")
    case True
    from "2.prems"(4) have "ends regex (pos_after (None, code) j) \<noteq> []"
      using True by (simp add: pos_at_def)
    from exec_loop_covers [OF ms _ this] "2.prems"(3)
    obtain m where m: "m \<in> set ms" "fst m \<le> j" "j < snd m" by auto
    let ?s = "fallback_statement code type m"
    from m True have "?s \<in> set sts \<and> s_type ?s = ty \<and> s_start ?s \<le> j \<and> j < s_end ?s"
      by (simp add: sts fallback_statement_fields)
    then show ?thesis by blast
  next
    case False
    with "2.prems"(2) have "(r, ty) \<in> set ps" by auto
    from "2.IH" [OF ms rest this "2.prems"(3,4)] sts show ?thesis by auto
  qed
qed

section \<open>Lemmas on the cleaner\<close>

lemma snd_removeStatement: "snd (removeStatement code s) = True"
  by (simp add: removeStatement_def Let_def split: prod.splits)

lemma fold_remove_step:
  "\<exists>code'. fold remove_step xs (code, n, acc) =
     (code', n + length xs,
      acc @ map (\<lambda>s. statement.extend s \<lparr> originalPosition = s_start s \<rparr>) xs)"
proof (induction xs arbitrary: code n acc)
  case Nil
  then show ?case by simp
next
  case (Cons x xs)
  obtain c1 where c1: "removeStatement code x = (c1, True)"
    using snd_removeStatement [of code x] by (cases "removeStatement code x") auto
  have step: "remove_step x (code, n, acc) =
      (c1, n + 1, acc @ [statement.extend x \<lparr> originalPosition = s_start x \<rparr>])"
    by (simp add: remove_step_def c1)
  from Cons.IH [of c1 "n + 1" "acc @ [statement.extend x \<lparr> originalPosition = s_start x \<rparr>]"]
  show ?case by (simp add: step)
qed

lemma s_start_extend: "s_start (statement.extend s m) = s_start s"
  by (simp add: statement.extend_def statement.defs)

lemma sorted_rev_descending:
  "sorted (map (\<lambda>s. - int (s_start s)) ys) \<Longrightarrow> sorted (rev (map s_start ys))"
  by (induction ys) (auto simp: sorted_append)

lemma removed_list:
  "removedStatements (fst (removeDebugStatements this code sts)) =
     rev (map (\<lambda>s. statement.extend s \<lparr> originalPosition = s_start s \<rparr>)
           (sort_descending (filterStatementsByConfig (config this) sts)))"
proof (cases "sts = []")
  case True
  then show ?thesis
    by (simp add: removeDebugStatements_def filterStatementsByConfig_def sort_descending_def)
next
  case False
  show ?thesis
  proof (cases "filterStatementsByConfig (config this) sts = []")
    case True
    with False show ?thesis
      by (simp add: removeDebugStatements_def sort_descending_def)
  next
    case nonempty: False
    obtain c' where "fold remove_step (sort_descending (filterStatementsByConfig (config this) sts)) (code, 0, []) =
       (c', 0 + length (sort_descending (filterStatementsByConfig (config this) sts)),
        [] @ map (\<lambda>s. statement.extend s \<lparr> originalPosition = s_start s \<rparr>) (sort_descending (filterStatementsByConfig (config this) sts)))"
      using fold_remove_step by blast
    with False nonempty show ?thesis
      by (simp add: removeDebugStatements_def Let_def)
  qed
qed

lemma split_lines_ne: "split_lines s \<noteq> []"
  by (induction s) (auto split: list.splits)

lemma context_line_of_bounds:
  "fst (context_line_of ls start i pos) = 0 \<or>
   (i \<le> fst (context_line_of ls start i pos) \<and> fst (context_line_of ls start i pos) < i + length ls)"
proof (induction ls arbitrary: i pos)
  case Nil
  then show ?case by simp
next
  case (Cons l ls)
  show ?case
  proof (cases "start \<ge> pos \<and> start < pos + length l + 1")
    case True
    then show ?thesis by simp
  next
    case False
    with Cons [of "i + 1" "pos + length l + 1"] show ?thesis by auto
  qed
qed

lemma context_line_of_in_range:
  "fst (context_line_of (split_lines code) start 0 0) < length (split_lines code)"
  using context_line_of_bounds [of "split_lines code" start 0 0] split_lines_ne [of code]
  by auto





section \<open>Lemmas on words and on the normalisation of whitespace\<close>


















section \<open>Lemmas on lines and on the removal of a statement alone on its line\<close>












section \<open>Lemmas on the rest of the text and on the second scan\<close>





























section \<open>Claims\<close>

text \<open>
  C7. The list \<open>removedStatements\<close> of every result of \<open>removeDebugStatements\<close> is in
  ascending order of \<open>start\<close>, and each entry is one of the statements passed in, with the
  offsets it was passed with and \<open>originalPosition\<close> equal to its \<open>start\<close>: the offsets
  recorded are those of the input text, whatever the removals before it did to the text.
\<close>

theorem removedStatements_ascending:
  "sorted (map s_start (removedStatements (fst (removeDebugStatements this code sts)))) \<and>
   (\<forall>r \<in> set (removedStatements (fst (removeDebugStatements this code sts))).
      \<exists>s \<in> set sts. r = statement.extend s \<lparr> originalPosition = s_start s \<rparr>)"
proof -
  let ?ys = "sort_descending (filterStatementsByConfig (config this) sts)"
  have "sorted (map (\<lambda>s. - int (s_start s)) ?ys)"
    unfolding sort_descending_def by (rule sorted_sort_key)
  then have "sorted (rev (map s_start ?ys))" by (rule sorted_rev_descending)
  then have a: "sorted (map s_start (removedStatements (fst (removeDebugStatements this code sts))))"
    by (simp add: removed_list rev_map comp_def s_start_extend)
  have "set ?ys \<subseteq> set sts"
    by (auto simp: sort_descending_def filterStatementsByConfig_def)
  then have b: "\<forall>r \<in> set (removedStatements (fst (removeDebugStatements this code sts))).
      \<exists>s \<in> set sts. r = statement.extend s \<lparr> originalPosition = s_start s \<rparr>"
    unfolding removed_list by auto
  from a b show ?thesis by blast
qed


theorem removedStatements_ascending_witness:
  "removedStatements (fst (removeDebugStatements new_cleaner two_in_line two_in_line_statements)) \<noteq> [] \<and>
   map s_start (removedStatements
     (fst (removeDebugStatements new_cleaner two_in_line two_in_line_statements))) = [5, 20] \<and>
   sorted (map s_start (removedStatements
     (fst (removeDebugStatements new_cleaner two_in_line two_in_line_statements)))) \<and>
   (\<exists>s \<in> set two_in_line_statements.
      hd (removedStatements
           (fst (removeDebugStatements new_cleaner two_in_line two_in_line_statements))) =
      statement.extend s \<lparr> originalPosition = s_start s \<rparr>)"
proof -
  let ?removed = "removedStatements
      (fst (removeDebugStatements new_cleaner two_in_line two_in_line_statements))"
  have ne: "?removed \<noteq> []"
    by code_simp
  have starts: "map s_start ?removed = [5, 20]"
    by code_simp
  from ne have "hd ?removed \<in> set ?removed" by simp
  with ne starts show ?thesis
    using removedStatements_ascending [of new_cleaner two_in_line two_in_line_statements]
    by blast
qed

text \<open>
  C4. Removing an empty statement list returns the text unchanged, with \<open>removedCount\<close> 0
  and no removed statement, and so does removing a list of which the filter accepts no
  statement; the whitespace of the text is not normalised in either case.
\<close>

theorem nothing_to_remove:
  "fst (removeDebugStatements this T []) =
     \<lparr> cleanCode = T, removedCount = 0, removedStatements = [] \<rparr> \<and>
   (filterStatementsByConfig (config this) sts = [] \<longrightarrow>
    fst (removeDebugStatements this T sts) =
      \<lparr> cleanCode = T, removedCount = 0, removedStatements = [] \<rparr>)"
  by (simp add: removeDebugStatements_def Let_def)

theorem nothing_to_remove_witness:
  "filterStatementsByConfig (config new_cleaner) [error_statement] = [] \<and>
   fst (removeDebugStatements new_cleaner error_and_log [error_statement]) =
     \<lparr> cleanCode = error_and_log, removedCount = 0, removedStatements = [] \<rparr> \<and>
   fst (removeDebugStatements new_cleaner error_and_log []) =
     \<lparr> cleanCode = error_and_log, removedCount = 0, removedStatements = [] \<rparr>"
proof -
  have "filterStatementsByConfig (config new_cleaner) [error_statement] = []"
    by code_simp
  then show ?thesis
    using nothing_to_remove [of new_cleaner error_and_log "[error_statement]"]
    by blast
qed








text \<open>
  C2 states what the removal of a statement from the middle of a line is meant to do, and
  the code misses it. The comment on \<open>cleanLeadingCommaOrSemicolon\<close> says that it removes
  the commas and semicolons that would be left hanging, and the test for this input expects
  the call to go and the rest to stay. The pattern \<open>/[,;]\s*$/\<close> is applied to all the text
  before the call, though, so in \<open>const r = f(); console.log(r); return r;\<close> it takes the
  semicolon that ends \<open>const r = f();\<close> and the space behind it: the result is the line
  \<open>const r = f() return r;\<close>, in which \<open>const r = f();\<close> does not occur and nothing
  separates the two statements that are left. \<open>return r;\<close> stays as it is; with
  \<open>cleanWhitespace\<close> set the line ends with a line feed, without it the line is all.
\<close>

theorem inline_removal:
  "addDebugStatement 15 29 inline_code ''console'' = Inr inline_statement \<and>
   fst (removeDebugStatements new_cleaner inline_code [inline_statement]) =
     \<lparr> cleanCode = ''const r = f() return r;\<newline>'', removedCount = 1,
       removedStatements =
         [statement.extend inline_statement \<lparr> originalPosition = 15 \<rparr>] \<rparr> \<and>
   fst (removeDebugStatements
          (new_cleaner \<lparr> config := default_config \<lparr> cleanWhitespace := False \<rparr> \<rparr>)
          inline_code [inline_statement]) =
     \<lparr> cleanCode = ''const r = f() return r;'', removedCount = 1,
       removedStatements =
         [statement.extend inline_statement \<lparr> originalPosition = 15 \<rparr>] \<rparr> \<and>
   \<not> includes_sub (cleanCode (fst (removeDebugStatements new_cleaner inline_code [inline_statement])))
       ''const r = f();'' \<and>
   cleanLeadingCommaOrSemicolon ''const r = f(); '' = ''const r = f()''"
  by code_simp

text \<open>
  C3 describes what the option is for, and the code misses it by one. The pattern
  counts line feeds, \<open>maxEmptyLines + 1\<close> or more of them, and the replacement is
  \<open>maxEmptyLines\<close> line feeds, which is \<open>maxEmptyLines - 1\<close> blank lines. With the default 2,
  three blank lines between \<open>a\<close> and \<open>b\<close> become one, and so do two blank lines, which
  the option allows; the indentation of the line after the run goes with it. With 0
  the lines are joined.
\<close>

theorem blank_lines_off_by_one:
  "cleanWhitespace_text default_config ''a\<newline>\<newline>\<newline>\<newline>b'' = ''a\<newline>\<newline>b\<newline>'' \<and>
   cleanWhitespace_text default_config ''a\<newline>\<newline>\<newline>b'' = ''a\<newline>\<newline>b\<newline>'' \<and>
   cleanWhitespace_text default_config ''a\<newline>\<newline>\<newline>\<newline>  b'' = ''a\<newline>\<newline>b\<newline>'' \<and>
   cleanWhitespace_text (default_config \<lparr> maxEmptyLines := 0 \<rparr>) ''a\<newline>\<newline>b'' = ''ab\<newline>''"
  by code_simp

text \<open>
  C5, as stated, fails: the pattern does not balance parentheses. For
  \<open>console.log(f(x));\<close> the match is \<open>console.log(f(x)\<close>: it ends at the first closing
  parenthesis, that of \<open>f(x)\<close>, and leaves \<open>);\<close> behind.
\<close>

theorem nested_parentheses_counterexample:
  "fallbackRegexParse ''console.log(f(x));'' =
     Some [\<lparr> s_type = ''console'', s_line = 1, s_column = 0, s_start = 0, s_end = 16,
              s_text = ''console.log(f(x)'', s_lineContent = ''console.log(f(x));'' \<rparr>]"
  by code_simp

text \<open>
  C5, amended. Every console statement of the fallback scanner is the text between its
  offsets. From its start the text reads \<open>console.\<close>, one of the nine method names,
  whitespace that may be empty, \<open>(\<close>, arguments without any \<open>)\<close>, and \<open>)\<close>: the argument
  span ends at the first closing parenthesis after the opening one, whatever the
  nesting, and may run over several lines. Behind that parenthesis the match takes the
  whitespace that follows, a semicolon if one comes next, and the whitespace behind it,
  and the statement ends there.
\<close>

theorem console_match_shape:
  assumes "fallbackRegexParse code = Some sts" and "s \<in> set sts" and "s_type s = ''console''"
  shows "s_text s = take (s_end s - s_start s) (drop (s_start s) code) \<and>
         (\<exists>m ws args r.
            drop (s_start s) code = ''console.'' @ m @ ws @ ''('' @ args @ '')'' @ r \<and>
            m \<in> set console_methods \<and> set ws \<subseteq> set js_space \<and>
            CHR '')'' \<notin> set args \<and> drop (s_end s) code = tail_end r)"
proof -
  from fallbackRegexParse_elem [OF assms(1,2)] obtain r0 a b y ys where
    r0: "(r0, s_type s) \<in> set patterns" and ab: "s_start s = a" "s_end s = b"
    and t: "s_text s = take (b - a) (drop a code)"
    and e: "ends r0 (pos_at code a) = y # ys" and y: "snd y = drop b code"
    by blast
  from r0 assms(3) have "r0 = console_regex" by (simp add: pattern_of_console)
  with e have e0: "ends (Seq (Lit ''console.'') (Seq (Alts (map Lit console_methods)) call_tail))
      (pos_at code a) = y # ys"
    by (simp add: console_regex_def)
  from e0 obtain z1 ys1 where z1: "z1 \<in> set (ends (Lit ''console.'') (pos_at code a))"
    and e1: "ends (Seq (Alts (map Lit console_methods)) call_tail) z1 = y # ys1"
    by (rule ends_Seq_hd)
  from e1 obtain z2 ys2 where z2: "z2 \<in> set (ends (Alts (map Lit console_methods)) z1)"
    and e2: "ends (Seq (Star (OneOf js_space))
      (Seq (Lit ''('') (Seq (Star (NoneOf '')'')) (Seq (Lit '')'') pattern_tail)))) z2 = y # ys2"
    unfolding call_tail_def by (rule ends_Seq_hd)
  from e2 obtain z3 ys3 where z3: "z3 \<in> set (ends (Star (OneOf js_space)) z2)"
    and e3: "ends (Seq (Lit ''('') (Seq (Star (NoneOf '')'')) (Seq (Lit '')'') pattern_tail)))
      z3 = y # ys3"
    by (rule ends_Seq_hd)
  from e3 obtain z4 ys4 where z4: "z4 \<in> set (ends (Lit ''('') z3)"
    and e4: "ends (Seq (Star (NoneOf '')'')) (Seq (Lit '')'') pattern_tail)) z4 = y # ys4"
    by (rule ends_Seq_hd)
  from e4 obtain z5 ys5 where z5: "z5 \<in> set (ends (Star (NoneOf '')'')) z4)"
    and e5: "ends (Seq (Lit '')'') pattern_tail) z5 = y # ys5"
    by (rule ends_Seq_hd)
  from e5 obtain z6 ys6 where z6: "z6 \<in> set (ends (Lit '')'') z5)"
    and e6: "ends pattern_tail z6 = y # ys6"
    by (rule ends_Seq_hd)
  from ends_sound [OF z1] have w1: "drop a code = ''console.'' @ snd z1"
    by (simp add: pos_at_def pos_after_def)
  from ends_sound [OF z2] obtain m where m: "m \<in> set console_methods" "snd z1 = m @ snd z2"
    by (auto simp: lang_Alts_Lit)
  from ends_sound [OF z3] obtain ws where "ws \<in> star (lang (OneOf js_space))"
    and w3: "snd z2 = ws @ snd z3"
    by auto
  from star_OneOf [OF this(1)] have ws: "set ws \<subseteq> set js_space" .
  from ends_sound [OF z4] have w4: "snd z3 = ''('' @ snd z4" by simp
  from ends_sound [OF z5] obtain args where "args \<in> star (lang (NoneOf '')''))"
    and w5: "snd z4 = args @ snd z5"
    by auto
  from star_NoneOf [OF this(1)] have args: "CHR '')'' \<notin> set args" by simp
  from ends_sound [OF z6] have w6: "snd z5 = '')'' @ snd z6" by simp
  from ends_pattern_tail [of "fst z6" "snd z6"] e6 have "snd y = tail_end (snd z6)"
    by auto
  with y have tl: "drop b code = tail_end (snd z6)" by simp
  from w1 m(2) w3 w4 w5 w6
  have "drop a code = ''console.'' @ m @ ws @ ''('' @ args @ '')'' @ snd z6"
    by simp
  with m(1) ws args tl
  have "\<exists>m ws args r.
            drop a code = ''console.'' @ m @ ws @ ''('' @ args @ '')'' @ r \<and>
            m \<in> set console_methods \<and> set ws \<subseteq> set js_space \<and>
            CHR '')'' \<notin> set args \<and> drop b code = tail_end r"
    by blast
  with t ab show ?thesis by simp
qed

theorem console_match_shape_witness:
  "fallbackRegexParse multiline_call = Some [multiline_statement] \<and>
   s_type multiline_statement = ''console'' \<and>
   s_text multiline_statement =
     take (s_end multiline_statement - s_start multiline_statement)
       (drop (s_start multiline_statement) multiline_call) \<and>
   (\<exists>m ws args r.
      drop (s_start multiline_statement) multiline_call =
        ''console.'' @ m @ ws @ ''('' @ args @ '')'' @ r \<and>
      m \<in> set console_methods \<and> set ws \<subseteq> set js_space \<and>
      CHR '')'' \<notin> set args \<and> drop (s_end multiline_statement) multiline_call = tail_end r) \<and>
   drop (s_end multiline_statement) multiline_call = ''next();''"
proof -
  have a: "fallbackRegexParse multiline_call = Some [multiline_statement]" by code_simp
  have b: "multiline_statement \<in> set [multiline_statement]" by simp
  have c: "s_type multiline_statement = ''console''" by code_simp
  have d: "drop (s_end multiline_statement) multiline_call = ''next();''" by code_simp
  from a c d console_match_shape [OF a b c] show ?thesis by blast
qed

text \<open>
  C6, as stated, fails in its first half: \<open>parseCode\<close> does not fail on a text the
  structural parser rejects. It catches the error, writes the message with
  \<open>console.warn\<close> and returns the statements of the lexical fallback.
\<close>

theorem parse_failure_counterexample:
  "rejecting_parser unbalanced (plugins ''test.js'') = Inl ''Unexpected token'' \<and>
   parseCode rejecting_parser unbalanced ''test.js'' =
     ([''Failed to parse file test.js: Unexpected token''],
      Returns [\<lparr> s_type = ''console'', s_line = 1, s_column = 15, s_start = 15, s_end = 30,
                 s_text = ''console.log(1);'', s_lineContent = unbalanced \<rparr>])"
  by code_simp

text \<open>
  C6, amended. For every text the structural parser rejects, \<open>parseCode\<close> returns: it
  warns with the message of the error and returns what the lexical fallback scanner
  returns for the same text. The fallback scanner returns for every text, and each index
  at which one of its four patterns matches is the start of a statement of that pattern's
  type or lies inside one.
\<close>

theorem fallback_on_parse_failure:
  "(\<exists>sts. fallbackRegexParse code = Some sts \<and>
      (\<forall>message. parse code (plugins filePath) = Inl message \<longrightarrow>
         parseCode parse code filePath =
           ([''Failed to parse file '' @ filePath @ '': '' @ message], Returns sts)) \<and>
      (\<forall>(r, ty) \<in> set patterns. \<forall>j \<le> length code.
         ends r (pos_at code j) \<noteq> [] \<longrightarrow>
         (\<exists>s \<in> set sts. s_type s = ty \<and> s_start s \<le> j \<and> j < s_end s)))"
proof -
  from fallbackRegexParse_total obtain sts where sts: "fallbackRegexParse code = Some sts"
    by blast
  then obtain sts' where c: "fallback_collect patterns code = Some sts'"
    and set: "set sts = set sts'"
    by (auto simp: fallbackRegexParse_def)
  have a: "\<forall>message. parse code (plugins filePath) = Inl message \<longrightarrow>
         parseCode parse code filePath =
           ([''Failed to parse file '' @ filePath @ '': '' @ message], Returns sts)"
    using sts by (simp add: parseCode_def)
  have b: "\<forall>(r, ty) \<in> set patterns. \<forall>j \<le> length code.
         ends r (pos_at code j) \<noteq> [] \<longrightarrow>
         (\<exists>s \<in> set sts. s_type s = ty \<and> s_start s \<le> j \<and> j < s_end s)"
    using fallback_collect_covers [OF c] set by blast
  from sts a b show ?thesis by blast
qed

theorem fallback_on_parse_failure_witness:
  "rejecting_parser unbalanced (plugins ''test.js'') = Inl ''Unexpected token'' \<and>
   (console_regex, ''console'') \<in> set patterns \<and>
   15 \<le> length unbalanced \<and>
   ends console_regex (pos_at unbalanced 15) \<noteq> [] \<and>
   (\<exists>sts. fallbackRegexParse unbalanced = Some sts \<and>
      parseCode rejecting_parser unbalanced ''test.js'' =
        ([''Failed to parse file '' @ ''test.js'' @ '': '' @ ''Unexpected token''], Returns sts) \<and>
      (\<exists>s \<in> set sts. s_type s = ''console'' \<and> s_start s \<le> 15 \<and> 15 < s_end s))"
proof -
  have a: "rejecting_parser unbalanced (plugins ''test.js'') = Inl ''Unexpected token''"
    by (simp add: rejecting_parser_def)
  have b: "(console_regex, ''console'') \<in> set patterns" by (simp add: patterns_def)
  have c: "15 \<le> length unbalanced" by (simp add: unbalanced_def)
  have d: "ends console_regex (pos_at unbalanced 15) \<noteq> []" by code_simp
  from fallback_on_parse_failure [of unbalanced rejecting_parser "''test.js''"]
  obtain sts where sts: "fallbackRegexParse unbalanced = Some sts"
    and p: "\<forall>message. rejecting_parser unbalanced (plugins ''test.js'') = Inl message \<longrightarrow>
         parseCode rejecting_parser unbalanced ''test.js'' =
           ([''Failed to parse file '' @ ''test.js'' @ '': '' @ message], Returns sts)"
    and cov: "\<forall>(r, ty) \<in> set patterns. \<forall>j \<le> length unbalanced.
         ends r (pos_at unbalanced j) \<noteq> [] \<longrightarrow>
         (\<exists>s \<in> set sts. s_type s = ty \<and> s_start s \<le> j \<and> j < s_end s)"
    by blast
  from p a have e: "parseCode rejecting_parser unbalanced ''test.js'' =
        ([''Failed to parse file '' @ ''test.js'' @ '': '' @ ''Unexpected token''], Returns sts)"
    by blast
  from bspec [OF cov b] c d
  have f: "\<exists>s \<in> set sts. s_type s = ''console'' \<and> s_start s \<le> 15 \<and> 15 < s_end s"
    by blast
  from a b c d sts e f show ?thesis by blast
qed

text \<open>
  C8. Every statement the scanner returns has \<open>0 \<le> start < end \<le> text.length\<close>: every
  statement of the lexical fallback, for every text, and every statement of \<open>parseCode\<close>,
  whichever pass made it, when the nodes the structural parser reports lie in the text
  (\<open>start < end \<le> text.length\<close>). Offsets are natural numbers, so \<open>0 \<le> start\<close> holds by type.
\<close>

theorem offsets_valid:
  "(\<forall>sts. fallbackRegexParse code = Some sts \<longrightarrow>
      (\<forall>s \<in> set sts. 0 \<le> s_start s \<and> s_start s < s_end s \<and> s_end s \<le> length code)) \<and>
   (\<forall>sts. snd (parseCode parse code filePath) = Returns sts \<longrightarrow>
      (\<forall>nodes. parse code (plugins filePath) = Inr nodes \<longrightarrow>
         (\<forall>v \<in> set nodes. node_start v < node_end v \<and> node_end v \<le> length code)) \<longrightarrow>
      (\<forall>s \<in> set sts. 0 \<le> s_start s \<and> s_start s < s_end s \<and> s_end s \<le> length code))"
proof -
  have fb: "\<And>sts. fallbackRegexParse code = Some sts \<Longrightarrow>
      \<forall>s \<in> set sts. 0 \<le> s_start s \<and> s_start s < s_end s \<and> s_end s \<le> length code"
    using fallbackRegexParse_elem by fastforce
  have pc: "\<forall>s \<in> set sts. 0 \<le> s_start s \<and> s_start s < s_end s \<and> s_end s \<le> length code"
    if r: "snd (parseCode parse code filePath) = Returns sts"
      and n: "\<forall>nodes. parse code (plugins filePath) = Inr nodes \<longrightarrow>
         (\<forall>v \<in> set nodes. node_start v < node_end v \<and> node_end v \<le> length code)"
    for sts
  proof (cases "parse code (plugins filePath)")
    case (Inl message)
    with r have "fallbackRegexParse code = Some sts"
      by (simp add: parseCode_def split: option.splits)
    from fb [OF this] show ?thesis .
  next
    case (Inr nodes)
    with n have v: "\<forall>v \<in> set nodes. node_start v < node_end v \<and> node_end v \<le> length code"
      by simp
    show ?thesis
    proof (cases "traverse nodes code []")
      case Inl': (Inl message)
      with Inr r have "fallbackRegexParse code = Some sts"
        by (simp add: parseCode_def split: option.splits)
      from fb [OF this] show ?thesis .
    next
      case Inr': (Inr sts')
      with Inr r have "sts' = sts" by (simp add: parseCode_def)
      with Inr' have "traverse nodes code [] = Inr sts" by simp
      from traverse_offsets [OF this v] show ?thesis by simp
    qed
  qed
  from fb pc show ?thesis by blast
qed

theorem offsets_valid_witness:
  "(\<exists>sts. fallbackRegexParse inline_code = Some sts \<and> sts \<noteq> [] \<and>
      s_start (hd sts) < s_end (hd sts) \<and> s_end (hd sts) \<le> length inline_code) \<and>
   (\<exists>sts. snd (parseCode inline_parser inline_code ''test.js'') = Returns sts \<and> sts \<noteq> [] \<and>
      s_start (hd sts) < s_end (hd sts) \<and> s_end (hd sts) \<le> length inline_code)"
proof -
  note v = offsets_valid [of inline_code inline_parser "''test.js''"]
  have "fallbackRegexParse inline_code =
      Some [\<lparr> s_type = ''console'', s_line = 1, s_column = 15, s_start = 15, s_end = 31,
               s_text = ''console.log(r); '', s_lineContent = inline_code \<rparr>]"
    by code_simp
  then obtain fb where fb: "fallbackRegexParse inline_code = Some fb" "fb \<noteq> []" by blast
  then have "hd fb \<in> set fb" by simp
  with v fb have 1: "s_start (hd fb) < s_end (hd fb) \<and> s_end (hd fb) \<le> length inline_code"
    by blast
  have pc: "snd (parseCode inline_parser inline_code ''test.js'') = Returns [inline_statement]"
    by code_simp
  have nodes: "\<forall>nodes. inline_parser inline_code (plugins ''test.js'') = Inr nodes \<longrightarrow>
      (\<forall>v \<in> set nodes. node_start v < node_end v \<and> node_end v \<le> length inline_code)"
    by (simp add: inline_parser_def inline_code_def)
  have "hd [inline_statement] \<in> set [inline_statement]" by simp
  with v pc nodes have 2: "s_start (hd [inline_statement]) < s_end (hd [inline_statement]) \<and>
      s_end (hd [inline_statement]) \<le> length inline_code"
    by blast
  from fb 1 pc 2 show ?thesis by blast
qed




end
